theory Spec2Isabelle
  imports Main
begin

section \<open>The asynchronous WebSocket client\<close>

text \<open>
  A shallow embedding of the class \<^verbatim>\<open>WebSocketClient\<close>. The object's four fields, the
  browser's \<^verbatim>\<open>WebSocket\<close> objects it creates, the promises it hands out and the
  calls it makes to the transport are the components of one state, which every method
  and every event listener takes and returns.
\<close>

subsection \<open>Values, promises and queue entries\<close>

datatype CloseEvent = CloseEvent (code: nat) (reason: string) (wasClean: bool)

text \<open>
  The values that settle a promise or are thrown: a message payload, \<^verbatim>\<open>null\<close>,
  \<^verbatim>\<open>undefined\<close>, a close event, an \<^verbatim>\<open>Error\<close> with its message, the event of
  the socket's \<^verbatim>\<open>error\<close> listener, an exception of the transport with its name.
\<close>

datatype 'd val =
  Data 'd | Null | Undefined | Close CloseEvent | Error string | ErrorEvent | DOMException string

datatype 'd promise = Pending | Fulfilled "'d val" | Rejected "'d val"

text \<open>
  An entry of \<^verbatim>\<open>_receiveCallbacksQueue\<close> is an object with a \<^verbatim>\<open>resolve\<close> and a
  \<^verbatim>\<open>reject\<close> function. The source builds two kinds: \<^verbatim>\<open>receive\<close> pushes the
  two functions of its promise; \<^verbatim>\<open>disconnect\<close> pushes an object whose
  \<^verbatim>\<open>resolve\<close> pushes the object again and whose \<^verbatim>\<open>reject\<close> is the
  \<^verbatim>\<open>resolve\<close> of its promise. Each carries the index of its promise.
\<close>

datatype callbacks = ReceiveCallbacks nat | DisconnectCallbacks nat

subsection \<open>The transport\<close>

datatype readyState = CONNECTING | OPEN | CLOSING | CLOSED

text \<open>
  A \<^verbatim>\<open>WebSocket\<close> object. \<open>setupPromise\<close> is the promise of
  \<^verbatim>\<open>_setupListenersOnConnect\<close> whose \<^verbatim>\<open>reject\<close> is the \<^verbatim>\<open>error\<close>
  listener and whose \<^verbatim>\<open>resolve\<close> \<^verbatim>\<open>handleOpen\<close> calls; \<open>listening\<close> says
  that \<^verbatim>\<open>handleOpen\<close> has added the \<^verbatim>\<open>message\<close> and \<^verbatim>\<open>close\<close>
  listeners; \<open>closeFired\<close> that the one \<^verbatim>\<open>close\<close> event has been dispatched.
\<close>

record WebSocket =
  url :: string
  protocols :: "string option"
  binaryType :: string
  readyState :: readyState
  setupPromise :: "nat option"
  listening :: bool
  closeFired :: bool

datatype 'd call =
    New string "string option"
  | SocketSend nat 'd
  | SocketClose nat "nat option" "string option"

subsection \<open>The state\<close>

text \<open>
  \<open>socket\<close> is \<^verbatim>\<open>this._socket\<close>, an index into \<open>sockets\<close> (\<open>None\<close> for
  \<^verbatim>\<open>undefined\<close>); \<open>closeEvent\<close> is \<^verbatim>\<open>this._closeEvent\<close> (\<open>None\<close> for
  \<^verbatim>\<open>null\<close>). \<open>thens\<close> holds the callbacks registered with \<^verbatim>\<open>then\<close> that
  have not run: the promise awaited, the promise \<^verbatim>\<open>then\<close> returned, and the
  arguments of \<^verbatim>\<open>connect\<close> the callback closes over.
\<close>

record 'd world =
  socket :: "nat option"
  closeEvent :: "CloseEvent option"
  receiveCallbacksQueue :: "callbacks list"
  receiveDataQueue :: "'d list"
  sockets :: "WebSocket list"
  promises :: "'d promise list"
  calls :: "'d call list"
  thens :: "(nat \<times> nat \<times> string \<times> string option) list"

subsection \<open>Promises\<close>

definition newPromise :: "'d promise \<Rightarrow> 'd world \<Rightarrow> nat \<times> 'd world" where
  "newPromise st w = (length (promises w), w\<lparr>promises := promises w @ [st]\<rparr>)"

text \<open>Settling a promise that is already settled does nothing.\<close>

definition settle :: "nat \<Rightarrow> 'd promise \<Rightarrow> 'd world \<Rightarrow> 'd world" where
  "settle p st w =
     (if p < length (promises w) \<and> promises w ! p = Pending
      then w\<lparr>promises := (promises w)[p := st]\<rparr> else w)"

definition resolve :: "nat \<Rightarrow> 'd val \<Rightarrow> 'd world \<Rightarrow> 'd world" where
  "resolve p v = settle p (Fulfilled v)"

definition reject :: "nat \<Rightarrow> 'd val \<Rightarrow> 'd world \<Rightarrow> 'd world" where
  "reject p v = settle p (Rejected v)"

fun callbacks_resolve :: "callbacks \<Rightarrow> 'd val \<Rightarrow> 'd world \<Rightarrow> 'd world" where
  "callbacks_resolve (ReceiveCallbacks p) v w = resolve p v w"
| "callbacks_resolve (DisconnectCallbacks p) dummy w =
     w\<lparr>receiveCallbacksQueue := receiveCallbacksQueue w @ [DisconnectCallbacks p]\<rparr>"

fun callbacks_reject :: "callbacks \<Rightarrow> 'd val \<Rightarrow> 'd world \<Rightarrow> 'd world" where
  "callbacks_reject (ReceiveCallbacks p) v w = reject p v w"
| "callbacks_reject (DisconnectCallbacks p) v w = resolve p v w"

subsection \<open>The methods of the class\<close>

definition reset :: "'d world \<Rightarrow> 'd world" where
  "reset w = w\<lparr>receiveDataQueue := [], receiveCallbacksQueue := [], closeEvent := None\<rparr>"

definition constructor :: "'d world" where
  "constructor =
     reset \<lparr>socket = None, closeEvent = None, receiveCallbacksQueue = [],
            receiveDataQueue = [], sockets = [], promises = [], calls = [], thens = []\<rparr>"

definition connected :: "'d world \<Rightarrow> bool" where
  "connected w =
     (case socket w of
        None \<Rightarrow> False
      | Some s \<Rightarrow> s < length (sockets w) \<and> readyState (sockets w ! s) = OPEN)"

definition dataAvailable :: "'d world \<Rightarrow> nat" where
  "dataAvailable w = length (receiveDataQueue w)"

text \<open>The value of \<^verbatim>\<open>this._closeEvent || new Error('Not connected.')\<close>.\<close>

definition notConnected :: "'d world \<Rightarrow> 'd val" where
  "notConnected w =
     (case closeEvent w of Some e \<Rightarrow> Close e | None \<Rightarrow> Error ''Not connected.'')"

text \<open>The value of \<^verbatim>\<open>this._closeEvent\<close>.\<close>

definition closeEventVal :: "'d world \<Rightarrow> 'd val" where
  "closeEventVal w = (case closeEvent w of Some e \<Rightarrow> Close e | None \<Rightarrow> Null)"

datatype 'd outcome = Returned | Thrown "'d val"

text \<open>
  The transport's primitives on \<^verbatim>\<open>this._socket\<close>. Each is recorded in \<open>calls\<close>.
  \<^verbatim>\<open>close\<close> first checks its arguments: a code other than 1000 and outside
  3000..4999 throws \<^verbatim>\<open>InvalidAccessError\<close>, a reason of more than 123 bytes throws
  \<^verbatim>\<open>SyntaxError\<close>, and the socket is left as it was. Otherwise \<^verbatim>\<open>close\<close>
  on a socket that is neither closing nor closed starts the closing handshake, which sets
  its \<^verbatim>\<open>readyState\<close> to \<^verbatim>\<open>CLOSING\<close> at once.
\<close>

definition closeThrows :: "nat option \<Rightarrow> string option \<Rightarrow> string option" where
  "closeThrows c r =
     (if (case c of None \<Rightarrow> False | Some n \<Rightarrow> n \<noteq> 1000 \<and> \<not> (3000 \<le> n \<and> n \<le> 4999))
      then Some ''InvalidAccessError''
      else if (case r of None \<Rightarrow> False | Some x \<Rightarrow> 123 < length x)
      then Some ''SyntaxError''
      else None)"

definition socket_send :: "'d \<Rightarrow> 'd world \<Rightarrow> 'd world" where
  "socket_send d w =
     (case socket w of
        None \<Rightarrow> w
      | Some s \<Rightarrow> w\<lparr>calls := calls w @ [SocketSend s d]\<rparr>)"

definition setState :: "nat \<Rightarrow> readyState \<Rightarrow> 'd world \<Rightarrow> 'd world" where
  "setState s st w = w\<lparr>sockets := (sockets w)[s := (sockets w ! s)\<lparr>readyState := st\<rparr>]\<rparr>"

definition socket_close ::
  "nat option \<Rightarrow> string option \<Rightarrow> 'd world \<Rightarrow> 'd outcome \<times> 'd world" where
  "socket_close c r w =
     (case socket w of
        None \<Rightarrow> (Returned, w)
      | Some s \<Rightarrow>
          (let w1 = w\<lparr>calls := calls w @ [SocketClose s c r]\<rparr>
           in case closeThrows c r of
                Some e \<Rightarrow> (Thrown (DOMException e), w1)
              | None \<Rightarrow>
                  (Returned,
                   if s < length (sockets w) \<and> readyState (sockets w ! s) \<in> {CONNECTING, OPEN}
                   then setState s CLOSING w1 else w1)))"

definition send :: "'d \<Rightarrow> 'd world \<Rightarrow> 'd outcome \<times> 'd world" where
  "send d w =
     (if \<not> connected w then (Thrown (notConnected w), w)
      else (Returned, socket_send d w))"

definition receive :: "'d world \<Rightarrow> nat \<times> 'd world" where
  "receive w =
     (case receiveDataQueue w of
        d # ds \<Rightarrow> newPromise (Fulfilled (Data d)) (w\<lparr>receiveDataQueue := ds\<rparr>)
      | [] \<Rightarrow>
          if \<not> connected w then newPromise (Rejected (notConnected w)) w
          else (let (p, w1) = newPromise Pending w
                in (p, w1\<lparr>receiveCallbacksQueue :=
                            receiveCallbacksQueue w1 @ [ReceiveCallbacks p]\<rparr>)))"

text \<open>
  In \<^verbatim>\<open>disconnect\<close> the entry is pushed and \<^verbatim>\<open>close\<close> called inside the
  executor of the promise: an exception of \<^verbatim>\<open>close\<close> rejects the promise, the entry
  staying in the queue.
\<close>

definition disconnect :: "nat option \<Rightarrow> string option \<Rightarrow> 'd world \<Rightarrow> nat \<times> 'd world" where
  "disconnect c r w =
     (if \<not> connected w then newPromise (Fulfilled (closeEventVal w)) w
      else (let (p, w1) = newPromise Pending w;
                w2 = w1\<lparr>receiveCallbacksQueue :=
                           receiveCallbacksQueue w1 @ [DisconnectCallbacks p]\<rparr>
            in case socket_close c r w2 of
                 (Returned, w3) \<Rightarrow> (p, w3)
               | (Thrown e, w3) \<Rightarrow> (p, reject p e w3)))"

text \<open>
  \<^verbatim>\<open>_setupListenersOnConnect\<close> adds the \<^verbatim>\<open>error\<close> and \<^verbatim>\<open>open\<close> listeners to
  \<^verbatim>\<open>this._socket\<close>. The promise it returns is returned from the callback of
  \<^verbatim>\<open>then\<close>, so the promise of \<^verbatim>\<open>then\<close> takes its state: the model settles
  the latter, \<open>q\<close>, where the source settles the former.
\<close>

definition setupListenersOnConnect :: "nat \<Rightarrow> 'd world \<Rightarrow> 'd world" where
  "setupListenersOnConnect q w =
     (case socket w of
        None \<Rightarrow> w
      | Some s \<Rightarrow> w\<lparr>sockets := (sockets w)[s := (sockets w ! s)\<lparr>setupPromise := Some q\<rparr>]\<rparr>)"

text \<open>\<^verbatim>\<open>connect\<close> calls \<^verbatim>\<open>disconnect()\<close> and registers its callback on the result.\<close>

definition connect :: "string \<Rightarrow> string option \<Rightarrow> 'd world \<Rightarrow> nat \<times> 'd world" where
  "connect u ps w =
     (let (p, w1) = disconnect None None w;
          (q, w2) = newPromise Pending w1
      in (q, w2\<lparr>thens := thens w2 @ [(p, q, u, ps)]\<rparr>))"

text \<open>
  The callback: reset, a new socket in binary mode, the listeners. The constructor of
  \<^verbatim>\<open>WebSocket\<close> throws \<^verbatim>\<open>SyntaxError\<close> for a URL or protocols it does not
  accept; the callback then ends after the reset, \<^verbatim>\<open>this._socket\<close> keeps its value
  and the promise of \<^verbatim>\<open>then\<close> is rejected. Which URLs are accepted is the
  transport's matter: \<open>accepted\<close> says what it decided.
\<close>

definition connect_then ::
  "bool \<Rightarrow> nat \<Rightarrow> string \<Rightarrow> string option \<Rightarrow> 'd world \<Rightarrow> 'd world" where
  "connect_then accepted q u ps w =
     (let w1 = reset w
      in if \<not> accepted
         then reject q (DOMException ''SyntaxError'') (w1\<lparr>calls := calls w1 @ [New u ps]\<rparr>)
         else
           (let w2 = w1\<lparr>socket := Some (length (sockets w1)),
                       sockets := sockets w1 @
                         [\<lparr>url = u, protocols = ps, binaryType = ''blob'',
                           readyState = CONNECTING, setupPromise = None, listening = False,
                           closeFired = False\<rparr>],
                       calls := calls w1 @ [New u ps]\<rparr>;
                w3 = (case socket w2 of
                        None \<Rightarrow> w2
                      | Some s \<Rightarrow>
                          w2\<lparr>sockets :=
                               (sockets w2)[s := (sockets w2 ! s)\<lparr>binaryType := ''arraybuffer''\<rparr>]\<rparr>)
            in setupListenersOnConnect q w3))"

subsection \<open>The event listeners\<close>

definition handleMessage :: "'d \<Rightarrow> 'd world \<Rightarrow> 'd world" where
  "handleMessage d w =
     (case receiveCallbacksQueue w of
        c # cs \<Rightarrow> callbacks_resolve c (Data d) (w\<lparr>receiveCallbacksQueue := cs\<rparr>)
      | [] \<Rightarrow> w\<lparr>receiveDataQueue := receiveDataQueue w @ [d]\<rparr>)"

text \<open>The loop of the \<^verbatim>\<open>close\<close> listener.\<close>

function rejectAll :: "'d world \<Rightarrow> 'd world" where
  "rejectAll w =
     (case receiveCallbacksQueue w of
        [] \<Rightarrow> w
      | c # cs \<Rightarrow> rejectAll (callbacks_reject c (closeEventVal w) (w\<lparr>receiveCallbacksQueue := cs\<rparr>)))"
  by pat_completeness auto
termination
proof (relation "measure (\<lambda>w. length (receiveCallbacksQueue w))")
  show "wf (measure (\<lambda>w::'d world. length (receiveCallbacksQueue w)))"
    by simp
next
  fix w :: "'d world" and c cs
  assume "receiveCallbacksQueue w = c # cs"
  then show "(callbacks_reject c (closeEventVal w) (w\<lparr>receiveCallbacksQueue := cs\<rparr>), w)
               \<in> measure (\<lambda>w. length (receiveCallbacksQueue w))"
    by (cases c) (simp_all add: resolve_def reject_def settle_def)
qed

declare rejectAll.simps [simp del]

definition handleClose :: "CloseEvent \<Rightarrow> 'd world \<Rightarrow> 'd world" where
  "handleClose ev w = rejectAll (w\<lparr>closeEvent := Some ev\<rparr>)"

text \<open>\<^verbatim>\<open>handleOpen\<close> of socket \<open>s\<close>: the two listeners are added, the promise resolved.\<close>

definition handleOpen :: "nat \<Rightarrow> 'd world \<Rightarrow> 'd world" where
  "handleOpen s w =
     (let w1 = w\<lparr>sockets := (sockets w)[s := (sockets w ! s)\<lparr>listening := True\<rparr>]\<rparr>
      in case setupPromise (sockets w ! s) of
           None \<Rightarrow> w1
         | Some q \<Rightarrow> resolve q Undefined w1)"

definition handleError :: "nat \<Rightarrow> 'd world \<Rightarrow> 'd world" where
  "handleError s w =
     (case setupPromise (sockets w ! s) of None \<Rightarrow> w | Some q \<Rightarrow> reject q ErrorEvent w)"

subsection \<open>Calls and events in sequence\<close>

text \<open>
  What can happen to a client: a call of one of its four methods, the run of a callback
  of \<^verbatim>\<open>then\<close> whose promise has been settled (\<open>RunThen\<close> when the constructor
  of \<^verbatim>\<open>WebSocket\<close> accepts its arguments, \<open>RunThenThrows\<close> when it throws), and
  the events of a socket. The
  transport's contract decides when an event is possible: \<^verbatim>\<open>open\<close> once, on a
  connecting socket; \<^verbatim>\<open>message\<close> on an open or closing socket; \<^verbatim>\<open>error\<close> and
  \<^verbatim>\<open>close\<close> on a socket whose \<^verbatim>\<open>close\<close> event has not been dispatched, the
  socket being closed from then on. An event that is not possible changes nothing.
\<close>

datatype 'd event =
    Connect string "string option"
  | Send 'd
  | Receive
  | Disconnect "nat option" "string option"
  | RunThen nat
  | RunThenThrows nat
  | OnOpen nat
  | OnMessage nat 'd
  | OnError nat
  | OnClose nat CloseEvent

definition runThen :: "bool \<Rightarrow> nat \<Rightarrow> 'd world \<Rightarrow> 'd world" where
  "runThen accepted q w =
     (case filter (\<lambda>(p, q', u, ps). q' = q) (thens w) of
        [] \<Rightarrow> w
      | (p, q', u, ps) # _ \<Rightarrow>
          if p < length (promises w) then
            (case promises w ! p of
               Pending \<Rightarrow> w
             | Fulfilled v \<Rightarrow>
                 connect_then accepted q u ps
                   (w\<lparr>thens := filter (\<lambda>(p, q', u, ps). q' \<noteq> q) (thens w)\<rparr>)
             | Rejected v \<Rightarrow>
                 reject q v (w\<lparr>thens := filter (\<lambda>(p, q', u, ps). q' \<noteq> q) (thens w)\<rparr>))
          else w)"

fun step :: "'d event \<Rightarrow> 'd world \<Rightarrow> 'd world" where
  "step (Connect u ps) w = snd (connect u ps w)"
| "step (Send d) w = snd (send d w)"
| "step Receive w = snd (receive w)"
| "step (Disconnect c r) w = snd (disconnect c r w)"
| "step (RunThen q) w = runThen True q w"
| "step (RunThenThrows q) w = runThen False q w"
| "step (OnOpen s) w =
     (if s < length (sockets w) \<and> readyState (sockets w ! s) = CONNECTING
      then handleOpen s (setState s OPEN w) else w)"
| "step (OnMessage s d) w =
     (if s < length (sockets w) \<and> readyState (sockets w ! s) \<in> {OPEN, CLOSING}
         \<and> listening (sockets w ! s)
      then handleMessage d w else w)"
| "step (OnError s) w =
     (if s < length (sockets w) \<and> \<not> closeFired (sockets w ! s)
      then handleError s (setState s CLOSED w) else w)"
| "step (OnClose s ev) w =
     (if s < length (sockets w) \<and> \<not> closeFired (sockets w ! s)
      then (let w1 = setState s CLOSED w;
                w2 = w1\<lparr>sockets := (sockets w1)[s := (sockets w1 ! s)\<lparr>closeFired := True\<rparr>]\<rparr>
            in if listening (sockets w ! s) then handleClose ev w2 else w2)
      else w)"

definition run :: "'d event list \<Rightarrow> 'd world \<Rightarrow> 'd world" where
  "run es w = fold step es w"

inductive reachable :: "'d world \<Rightarrow> bool" where
  reachable_constructor: "reachable constructor"
| reachable_step: "reachable w \<Longrightarrow> reachable (step e w)"

subsection \<open>Interleavings of messages and receive calls\<close>

text \<open>
  A message event or a call of \<^verbatim>\<open>receive\<close>. \<open>interleaving\<close> runs a sequence of
  them and returns the promises of the calls, in the order of the calls; \<open>arrivals\<close> are
  the payloads of the sequence, in the order of arrival.
\<close>

datatype 'd action = Arrival 'd | ReceiveCall

fun interleaving :: "'d action list \<Rightarrow> 'd world \<Rightarrow> nat list \<times> 'd world" where
  "interleaving [] w = ([], w)"
| "interleaving (Arrival d # as) w = interleaving as (handleMessage d w)"
| "interleaving (ReceiveCall # as) w =
     (let (p, w1) = receive w; (ps, w2) = interleaving as w1 in (p # ps, w2))"

fun arrivals :: "'d action list \<Rightarrow> 'd list" where
  "arrivals [] = []"
| "arrivals (Arrival d # as) = d # arrivals as"
| "arrivals (ReceiveCall # as) = arrivals as"

subsection \<open>Events that leave a closed client closed\<close>

text \<open>
  Every event but the run of the callback of \<^verbatim>\<open>connect\<close>, which resets the client
  and installs a new socket, and the \<^verbatim>\<open>close\<close> event of a socket, which sets the
  terminal record.
\<close>

fun quiet :: "'d event \<Rightarrow> bool" where
  "quiet (RunThen q) = False"
| "quiet (RunThenThrows q) = False"
| "quiet (OnClose s ev) = False"
| "quiet e = True"

subsection \<open>Promises that nothing can settle\<close>

text \<open>
  A promise is settled only through its \<^verbatim>\<open>resolve\<close> and \<^verbatim>\<open>reject\<close> functions.
  The client keeps such functions in three places: the entries of
  \<^verbatim>\<open>_receiveCallbacksQueue\<close>, the \<^verbatim>\<open>open\<close> and \<^verbatim>\<open>error\<close> listeners of a
  socket, and the promise a registered \<^verbatim>\<open>then\<close> callback will settle.
\<close>

definition unreferenced :: "nat \<Rightarrow> 'd world \<Rightarrow> bool" where
  "unreferenced p w \<longleftrightarrow>
     p < length (promises w) \<and>
     ReceiveCallbacks p \<notin> set (receiveCallbacksQueue w) \<and>
     DisconnectCallbacks p \<notin> set (receiveCallbacksQueue w) \<and>
     (\<forall>x\<in>set (sockets w). setupPromise x \<noteq> Some p) \<and>
     (\<forall>(a, q, u, ps)\<in>set (thens w). q \<noteq> p)"

subsection \<open>Scenarios\<close>

text \<open>Concrete runs, used to exercise the statements below.\<close>

definition bye :: CloseEvent where
  "bye = CloseEvent 1000 ''bye'' True"

text \<open>\<^verbatim>\<open>await connect('ws://x')\<close> on a new client.\<close>

definition opened :: "string world" where
  "opened = run [Connect ''ws://x'' None, RunThen 1, OnOpen 0] constructor"

text \<open>Two messages arrive unclaimed; then the server closes.\<close>

definition open_with_buffer :: "string world" where
  "open_with_buffer = run [OnMessage 0 ''a'', OnMessage 0 ''b''] opened"

definition closed_with_buffer :: "string world" where
  "closed_with_buffer = run [OnMessage 0 ''a'', OnMessage 0 ''b'', OnClose 0 bye] opened"

text \<open>A \<^verbatim>\<open>receive\<close> served by a message, then \<^verbatim>\<open>disconnect()\<close>.\<close>

definition closing :: "string world" where
  "closing = run [Receive, OnMessage 0 ''a'', Disconnect None None] opened"


text \<open>A message is buffered, then \<^verbatim>\<open>disconnect()\<close> is called.\<close>

definition buffered_closing :: "string world" where
  "buffered_closing = run [OnMessage 0 ''a'', Disconnect None None] opened"

text \<open>
  \<^verbatim>\<open>disconnect()\<close> on the open connection, \<^verbatim>\<open>connect('ws://y')\<close> before the
  close event, which then arrives.
\<close>

definition abandoned :: "string world" where
  "abandoned =
     run [Disconnect None None, Connect ''ws://y'' None, RunThen 4, OnClose 0 bye] opened"

text \<open>
  \<^verbatim>\<open>connect('ws://old')\<close>, and \<^verbatim>\<open>connect('ws://new')\<close> before the first socket
  has opened; both sockets open.
\<close>

definition reconnected :: "string world" where
  "reconnected =
     run [Connect ''ws://old'' None, RunThen 1, Connect ''ws://new'' None, RunThen 3,
          OnOpen 0, OnOpen 1] constructor"



text \<open>Scenario B of the specification, and a longer exchange.\<close>

definition scenarioB :: "string action list" where
  "scenarioB = [ReceiveCall, ReceiveCall, Arrival ''a'', Arrival ''b'']"

definition exchange :: "string action list" where
  "exchange = [ReceiveCall, Arrival ''a'', Arrival ''b'', Arrival ''c'', ReceiveCall,
               ReceiveCall, ReceiveCall]"

section \<open>Basic facts\<close>

lemma settle_fields [simp]:
  "socket (settle p st w) = socket w"
  "closeEvent (settle p st w) = closeEvent w"
  "receiveCallbacksQueue (settle p st w) = receiveCallbacksQueue w"
  "receiveDataQueue (settle p st w) = receiveDataQueue w"
  "sockets (settle p st w) = sockets w"
  "calls (settle p st w) = calls w"
  "thens (settle p st w) = thens w"
  "length (promises (settle p st w)) = length (promises w)"
  by (simp_all add: settle_def)

lemma callbacks_reject_fields [simp]:
  "socket (callbacks_reject c v w) = socket w"
  "closeEvent (callbacks_reject c v w) = closeEvent w"
  "receiveCallbacksQueue (callbacks_reject c v w) = receiveCallbacksQueue w"
  "receiveDataQueue (callbacks_reject c v w) = receiveDataQueue w"
  "sockets (callbacks_reject c v w) = sockets w"
  "calls (callbacks_reject c v w) = calls w"
  "thens (callbacks_reject c v w) = thens w"
  "length (promises (callbacks_reject c v w)) = length (promises w)"
  by (cases c; simp add: resolve_def reject_def)+

lemma callbacks_reject_queue_update:
  "callbacks_reject c v (w\<lparr>receiveCallbacksQueue := q\<rparr>) =
     (callbacks_reject c v w)\<lparr>receiveCallbacksQueue := q\<rparr>"
  by (cases c) (simp_all add: resolve_def reject_def settle_def)

lemma closeEventVal_callbacks_reject [simp]:
  "closeEventVal (callbacks_reject c v w) = closeEventVal w"
  by (simp add: closeEventVal_def)

lemma closeEventVal_queue_update [simp]:
  "closeEventVal (w\<lparr>receiveCallbacksQueue := q\<rparr>) = closeEventVal w"
  by (simp add: closeEventVal_def)

lemma fold_reject_queue_update:
  "fold (\<lambda>c. callbacks_reject c v) cs (w\<lparr>receiveCallbacksQueue := q\<rparr>) =
     (fold (\<lambda>c. callbacks_reject c v) cs w)\<lparr>receiveCallbacksQueue := q\<rparr>"
  by (induction cs arbitrary: w) (simp_all add: callbacks_reject_queue_update)

lemma rejectAll_fold:
  "rejectAll w =
     (fold (\<lambda>c. callbacks_reject c (closeEventVal w)) (receiveCallbacksQueue w) w)
       \<lparr>receiveCallbacksQueue := []\<rparr>"
proof (induction w rule: rejectAll.induct)
  case (1 w)
  show ?case
  proof (cases "receiveCallbacksQueue w")
    case Nil
    then show ?thesis by (subst rejectAll.simps) simp
  next
    case (Cons c cs)
    from "1" [OF Cons] Cons show ?thesis
      by (subst rejectAll.simps)
         (simp add: callbacks_reject_queue_update fold_reject_queue_update)
  qed
qed

lemma fold_reject_fields [simp]:
  "socket (fold (\<lambda>c. callbacks_reject c v) cs w) = socket w"
  "closeEvent (fold (\<lambda>c. callbacks_reject c v) cs w) = closeEvent w"
  "receiveCallbacksQueue (fold (\<lambda>c. callbacks_reject c v) cs w) = receiveCallbacksQueue w"
  "receiveDataQueue (fold (\<lambda>c. callbacks_reject c v) cs w) = receiveDataQueue w"
  "sockets (fold (\<lambda>c. callbacks_reject c v) cs w) = sockets w"
  "calls (fold (\<lambda>c. callbacks_reject c v) cs w) = calls w"
  "thens (fold (\<lambda>c. callbacks_reject c v) cs w) = thens w"
  "length (promises (fold (\<lambda>c. callbacks_reject c v) cs w)) = length (promises w)"
  by (induction cs arbitrary: w; simp)+

lemma rejectAll_fields [simp]:
  "socket (rejectAll w) = socket w"
  "closeEvent (rejectAll w) = closeEvent w"
  "receiveCallbacksQueue (rejectAll w) = []"
  "receiveDataQueue (rejectAll w) = receiveDataQueue w"
  "sockets (rejectAll w) = sockets w"
  "calls (rejectAll w) = calls w"
  "thens (rejectAll w) = thens w"
  "length (promises (rejectAll w)) = length (promises w)"
  by (simp_all add: rejectAll_fold)

lemma settled_stays_settle:
  "p < length (promises w) \<Longrightarrow> promises w ! p \<noteq> Pending \<Longrightarrow>
     promises (settle q st w) ! p = promises w ! p"
  by (auto simp: settle_def nth_list_update)

lemma settled_stays_reject:
  "p < length (promises w) \<Longrightarrow> promises w ! p \<noteq> Pending \<Longrightarrow>
     promises (callbacks_reject c v w) ! p = promises w ! p"
  by (cases c) (simp_all add: resolve_def reject_def settled_stays_settle)

lemma settled_stays_fold_reject:
  "p < length (promises w) \<Longrightarrow> promises w ! p \<noteq> Pending \<Longrightarrow>
     promises (fold (\<lambda>c. callbacks_reject c v) cs w) ! p = promises w ! p"
  by (induction cs arbitrary: w) (simp_all add: settled_stays_reject)


lemma fold_reject_waiter:
  "DisconnectCallbacks p \<in> set cs \<Longrightarrow> ReceiveCallbacks p \<notin> set cs \<Longrightarrow>
   p < length (promises w) \<Longrightarrow> promises w ! p = Pending \<Longrightarrow>
     promises (fold (\<lambda>c. callbacks_reject c v) cs w) ! p = Fulfilled v"
proof (induction cs arbitrary: w)
  case Nil
  then show ?case by simp
next
  case (Cons c cs)
  show ?case
  proof (cases "c = DisconnectCallbacks p")
    case True
    from Cons.prems have "promises (callbacks_reject c v w) ! p = Fulfilled v"
      by (simp add: True resolve_def settle_def)
    then show ?thesis
      using Cons.prems by (simp add: settled_stays_fold_reject)
  next
    case False
    with Cons.prems have "promises (callbacks_reject c v w) ! p = Pending"
      by (cases c) (auto simp: resolve_def reject_def settle_def nth_list_update)
    with Cons.prems False Cons.IH [of "callbacks_reject c v w"] show ?thesis
      by simp
  qed
qed

lemma handleClose_eq:
  "handleClose ev w =
     (fold (\<lambda>c. callbacks_reject c (Close ev)) (receiveCallbacksQueue w) w)
       \<lparr>closeEvent := Some ev, receiveCallbacksQueue := []\<rparr>"
proof -
  have "fold (\<lambda>c. callbacks_reject c v) cs (w\<lparr>closeEvent := e\<rparr>) =
          (fold (\<lambda>c. callbacks_reject c v) cs w)\<lparr>closeEvent := e\<rparr>" for v cs e and w :: "'a world"
  proof (induction cs arbitrary: w)
    case Nil
    show ?case by simp
  next
    case (Cons c cs)
    have "callbacks_reject c v (w\<lparr>closeEvent := e\<rparr>) = (callbacks_reject c v w)\<lparr>closeEvent := e\<rparr>"
      by (cases c) (simp_all add: resolve_def reject_def settle_def)
    then show ?case by (simp add: Cons.IH)
  qed
  then show ?thesis
    by (simp add: handleClose_def rejectAll_fold closeEventVal_def)
qed


lemmas eval_defs = run_def constructor_def reset_def connect_def connect_then_def disconnect_def
  receive_def send_def newPromise_def settle_def resolve_def reject_def connected_def
  closeEventVal_def notConnected_def socket_send_def socket_close_def closeThrows_def setState_def
  setupListenersOnConnect_def handleMessage_def handleClose_eq handleOpen_def handleError_def
  runThen_def

lemma opened_eq: "opened = \<lparr>socket = Some 0, closeEvent = None, receiveCallbacksQueue = [],
    receiveDataQueue = [],
    sockets =
      [\<lparr>url = ''ws://x'', protocols = None, binaryType = ''arraybuffer'',
          readyState = OPEN, setupPromise = Some 1, listening = True,
          closeFired = False\<rparr>],
    promises = [Fulfilled Null, Fulfilled Undefined],
    calls = [New ''ws://x'' None], thens = []\<rparr>"
  by (simp add: opened_def eval_defs)

lemma on_close_eq:
  assumes "s < length (sockets w)" "listening (sockets w ! s)" "\<not> closeFired (sockets w ! s)"
  shows "step (OnClose s ev) w =
           (fold (\<lambda>c. callbacks_reject c (Close ev)) (receiveCallbacksQueue w) w)
             \<lparr>closeEvent := Some ev, receiveCallbacksQueue := [],
              sockets := (sockets w)[s := (sockets w ! s)\<lparr>readyState := CLOSED, closeFired := True\<rparr>]\<rparr>"
proof -
  have "fold (\<lambda>c. callbacks_reject c v) cs (w\<lparr>sockets := e\<rparr>) =
          (fold (\<lambda>c. callbacks_reject c v) cs w)\<lparr>sockets := e\<rparr>" for v cs e and w :: "'a world"
  proof (induction cs arbitrary: w)
    case Nil
    show ?case by simp
  next
    case (Cons c cs)
    have "callbacks_reject c v (w\<lparr>sockets := e\<rparr>) = (callbacks_reject c v w)\<lparr>sockets := e\<rparr>"
      by (cases c) (simp_all add: resolve_def reject_def settle_def)
    then show ?case by (simp add: Cons.IH)
  qed
  with assms show ?thesis
    by (simp add: handleClose_eq setState_def Let_def)
qed

lemma receive_closed_empty:
  assumes "\<not> connected w" "receiveDataQueue w = []" "closeEvent w = Some ev"
  shows "receive w = (length (promises w), w\<lparr>promises := promises w @ [Rejected (Close ev)]\<rparr>)"
  using assms by (simp add: receive_def newPromise_def notConnected_def)

lemma receive_closed_empty_iter:
  assumes "\<not> connected w" "receiveDataQueue w = []" "closeEvent w = Some ev"
  shows "\<not> connected (((\<lambda>w. snd (receive w)) ^^ n) w) \<and>
         receiveDataQueue (((\<lambda>w. snd (receive w)) ^^ n) w) = [] \<and>
         receiveCallbacksQueue (((\<lambda>w. snd (receive w)) ^^ n) w) = receiveCallbacksQueue w \<and>
         closeEvent (((\<lambda>w. snd (receive w)) ^^ n) w) = Some ev"
proof (induction n)
  case 0
  from assms show ?case by simp
next
  case (Suc n)
  then show ?case
    by (auto simp: receive_closed_empty connected_def split: option.splits)
qed

lemma connected_update [simp]:
  "connected (w\<lparr>receiveDataQueue := ds\<rparr>) = connected w"
  "connected (w\<lparr>receiveCallbacksQueue := cs\<rparr>) = connected w"
  "connected (w\<lparr>promises := ps\<rparr>) = connected w"
  "connected (w\<lparr>closeEvent := e\<rparr>) = connected w"
  "connected (w\<lparr>calls := c\<rparr>) = connected w"
  "connected (w\<lparr>thens := t\<rparr>) = connected w"
  by (simp_all add: connected_def split: option.splits)

lemma handleMessage_settled:
  assumes "p < length (promises w)" "promises w ! p \<noteq> Pending"
  shows "p < length (promises (handleMessage d w)) \<and>
         promises (handleMessage d w) ! p = promises w ! p"
proof (cases "receiveCallbacksQueue w")
  case Nil
  with assms show ?thesis by (simp add: handleMessage_def)
next
  case (Cons c cs)
  with assms show ?thesis
    by (cases c) (simp_all add: handleMessage_def resolve_def settled_stays_settle)
qed

lemma receive_settled:
  assumes "p < length (promises w)"
  shows "p < length (promises (snd (receive w))) \<and>
         promises (snd (receive w)) ! p = promises w ! p"
  using assms
  by (auto simp: receive_def newPromise_def nth_append split: list.splits)

lemma interleaving_settled:
  "p < length (promises w) \<Longrightarrow> promises w ! p \<noteq> Pending \<Longrightarrow>
     p < length (promises (snd (interleaving as w))) \<and>
     promises (snd (interleaving as w)) ! p = promises w ! p"
proof (induction as w rule: interleaving.induct)
  case (1 w)
  then show ?case by simp
next
  case (2 d as w)
  from handleMessage_settled [OF "2.prems", of d]
  have "p < length (promises (handleMessage d w))"
    "promises (handleMessage d w) ! p \<noteq> Pending"
    "promises (handleMessage d w) ! p = promises w ! p"
    using "2.prems" by simp_all
  with "2.IH" show ?case
    by simp
next
  case (3 as w)
  obtain p' w1 where r: "receive w = (p', w1)" by (cases "receive w")
  from receive_settled [OF "3.prems"(1)] r "3.prems"
  have "p < length (promises w1)" "promises w1 ! p \<noteq> Pending" "promises w1 ! p = promises w ! p"
    by simp_all
  with "3.IH" [OF r [symmetric] refl] r show ?case
    by (simp add: split_beta)
qed

lemma fifo_general:
  assumes "connected w"
    and "receiveCallbacksQueue w = map ReceiveCallbacks qs"
    and "receiveDataQueue w = ds"
    and "qs = [] \<or> ds = []"
    and "distinct qs"
    and "\<forall>q\<in>set qs. q < length (promises w) \<and> promises w ! q = Pending"
    and "k < length (qs @ fst (interleaving as w))"
    and "k < length (ds @ arrivals as)"
  shows "(qs @ fst (interleaving as w)) ! k < length (promises (snd (interleaving as w))) \<and>
         promises (snd (interleaving as w)) ! ((qs @ fst (interleaving as w)) ! k)
           = Fulfilled (Data ((ds @ arrivals as) ! k))"
  using assms
proof (induction as w arbitrary: qs ds k rule: interleaving.induct)
  case (1 w)
  then show ?case by auto
next
  case (2 d as w)
  show ?case
  proof (cases qs)
    case Nil
    let ?w1 = "handleMessage d w"
    from Nil "2.prems" have w1: "?w1 = w\<lparr>receiveDataQueue := ds @ [d]\<rparr>"
      by (simp add: handleMessage_def)
    have "([] @ fst (interleaving as ?w1)) ! k < length (promises (snd (interleaving as ?w1))) \<and>
         promises (snd (interleaving as ?w1)) ! (([] @ fst (interleaving as ?w1)) ! k)
           = Fulfilled (Data (((ds @ [d]) @ arrivals as) ! k))"
      using "2.prems" Nil
      by (intro "2.IH") (simp_all add: w1)
    with Nil show ?thesis by simp
  next
    case (Cons q qs')
    let ?w1 = "handleMessage d w"
    from Cons "2.prems" have ds: "ds = []" by simp
    from Cons "2.prems" have q: "q < length (promises w)" "promises w ! q = Pending"
      "q \<notin> set qs'" "distinct qs'"
      by simp_all
    from Cons "2.prems" q have w1: "?w1 = w\<lparr>receiveCallbacksQueue := map ReceiveCallbacks qs',
        promises := (promises w)[q := Fulfilled (Data d)]\<rparr>"
      by (simp add: handleMessage_def resolve_def settle_def)
    have q1: "q < length (promises ?w1)" "promises ?w1 ! q = Fulfilled (Data d)"
      using q by (simp_all add: w1)
    show ?thesis
    proof (cases k)
      case 0
      from interleaving_settled [OF q1(1), of as] q1(2) Cons ds 0 show ?thesis
        by simp
    next
      case (Suc j)
      have "(qs' @ fst (interleaving as ?w1)) ! j < length (promises (snd (interleaving as ?w1))) \<and>
         promises (snd (interleaving as ?w1)) ! ((qs' @ fst (interleaving as ?w1)) ! j)
           = Fulfilled (Data (([] @ arrivals as) ! j))"
      proof (intro "2.IH")
        show "connected ?w1" using "2.prems"(1) by (simp add: w1)
        show "receiveCallbacksQueue ?w1 = map ReceiveCallbacks qs'" by (simp add: w1)
        show "receiveDataQueue ?w1 = []" using "2.prems"(3) ds by (simp add: w1)
        show "qs' = [] \<or> [] = []" by simp
        show "distinct qs'" by (rule q(4))
        show "\<forall>q\<in>set qs'. q < length (promises ?w1) \<and> promises ?w1 ! q = Pending"
          using "2.prems"(6) Cons q by (auto simp: w1 nth_list_update)
        show "j < length (qs' @ fst (interleaving as ?w1))"
          using "2.prems"(7) Cons Suc by simp
        show "j < length ([] @ arrivals as)"
          using "2.prems"(8) ds Suc by simp
      qed
      with Cons ds Suc show ?thesis by simp
    qed
  qed
next
  case (3 as w)
  obtain p w1 where r: "receive w = (p, w1)" by (cases "receive w")
  obtain ps w2 where i: "interleaving as w1 = (ps, w2)" by (cases "interleaving as w1")
  have unf: "interleaving (ReceiveCall # as) w = (p # ps, w2)"
    by (simp add: r i)
  show ?case
  proof (cases ds)
    case Nil
    from Nil "3.prems" r have p: "p = length (promises w)"
      and w1: "w1 = w\<lparr>promises := promises w @ [Pending],
                 receiveCallbacksQueue := map ReceiveCallbacks (qs @ [p])\<rparr>"
      by (auto simp: receive_def newPromise_def)
    have "((qs @ [p]) @ fst (interleaving as w1)) ! k < length (promises (snd (interleaving as w1))) \<and>
         promises (snd (interleaving as w1)) ! (((qs @ [p]) @ fst (interleaving as w1)) ! k)
           = Fulfilled (Data (([] @ arrivals as) ! k))"
    proof (intro "3.IH" [OF r [symmetric] refl])
      show "connected w1" using "3.prems"(1) by (simp add: w1)
      show "receiveCallbacksQueue w1 = map ReceiveCallbacks (qs @ [p])" by (simp add: w1)
      show "receiveDataQueue w1 = []" using "3.prems"(3) Nil by (simp add: w1)
      show "qs @ [p] = [] \<or> [] = []" by simp
      show "distinct (qs @ [p])" using "3.prems"(5,6) p by auto
      show "\<forall>q\<in>set (qs @ [p]). q < length (promises w1) \<and> promises w1 ! q = Pending"
        using "3.prems"(6) p by (auto simp: w1 nth_append)
      show "k < length ((qs @ [p]) @ fst (interleaving as w1))"
        using "3.prems"(7) unfolding unf by (simp add: i)
      show "k < length ([] @ arrivals as)"
        using "3.prems"(8) Nil by simp
    qed
    with Nil show ?thesis unfolding unf by (simp add: i)
  next
    case (Cons d ds')
    from Cons "3.prems" have qs: "qs = []" by simp
    from Cons "3.prems" r have p: "p = length (promises w)"
      and w1: "w1 = w\<lparr>receiveDataQueue := ds', promises := promises w @ [Fulfilled (Data d)]\<rparr>"
      by (auto simp: receive_def newPromise_def)
    have p1: "p < length (promises w1)" "promises w1 ! p = Fulfilled (Data d)"
      by (simp_all add: w1 p)
    show ?thesis
    proof (cases k)
      case 0
      from interleaving_settled [OF p1(1), of as] p1(2) Cons qs 0 show ?thesis
        unfolding unf by (simp add: i)
    next
      case (Suc j)
      have "([] @ fst (interleaving as w1)) ! j < length (promises (snd (interleaving as w1))) \<and>
         promises (snd (interleaving as w1)) ! (([] @ fst (interleaving as w1)) ! j)
           = Fulfilled (Data ((ds' @ arrivals as) ! j))"
      proof (intro "3.IH" [OF r [symmetric] refl])
        show "connected w1" using "3.prems"(1) by (simp add: w1)
        show "receiveCallbacksQueue w1 = map ReceiveCallbacks []"
          using "3.prems"(2) qs by (simp add: w1)
        show "receiveDataQueue w1 = ds'" by (simp add: w1)
        show "[] = [] \<or> ds' = []" by simp
        show "distinct ([]::nat list)" by simp
        show "\<forall>q\<in>set []. q < length (promises w1) \<and> promises w1 ! q = Pending" by simp
        show "j < length ([] @ fst (interleaving as w1))"
          using "3.prems"(7) qs Suc unfolding unf by (simp add: i)
        show "j < length (ds' @ arrivals as)"
          using "3.prems"(8) Cons Suc by simp
      qed
      with Cons qs Suc show ?thesis unfolding unf by (simp add: i)
    qed
  qed
qed

lemma interleaving_length:
  "length (fst (interleaving as w)) = length (filter (\<lambda>a. a = ReceiveCall) as)"
proof (induction as arbitrary: w)
  case Nil
  show ?case by simp
next
  case (Cons a as)
  then show ?case by (cases a) (simp_all add: split_beta)
qed

lemma arrivals_length:
  "length (arrivals as) = length (filter (\<lambda>a. a \<noteq> ReceiveCall) as)"
  by (induction as rule: arrivals.induct) simp_all

lemma exclusive_step:
  assumes "receiveDataQueue w = [] \<or> (\<forall>p. ReceiveCallbacks p \<notin> set (receiveCallbacksQueue w))"
  shows "receiveDataQueue (step e w) = [] \<or>
         (\<forall>p. ReceiveCallbacks p \<notin> set (receiveCallbacksQueue (step e w)))"
proof (cases e)
  case (Connect u ps)
  with assms show ?thesis
    by (auto simp: connect_def disconnect_def newPromise_def socket_close_def closeThrows_def
        setState_def Let_def split: option.splits)
next
  case (Send d)
  with assms show ?thesis
    by (auto simp: send_def socket_send_def split: option.splits)
next
  case Receive
  with assms show ?thesis
    by (auto simp: receive_def newPromise_def split: list.splits)
next
  case (Disconnect c r)
  with assms show ?thesis
    by (auto simp: disconnect_def newPromise_def socket_close_def reject_def setState_def Let_def
        split: option.splits)
next
  case (RunThen q)
  have "receiveDataQueue (connect_then a q u ps v) = []" for a u ps and v :: "'a world"
    by (simp add: connect_then_def reset_def setupListenersOnConnect_def reject_def Let_def)
  with assms RunThen show ?thesis
    by (auto simp: runThen_def reject_def split: list.splits promise.splits)
next
  case (RunThenThrows q)
  have "receiveDataQueue (connect_then a q u ps v) = []" for a u ps and v :: "'a world"
    by (simp add: connect_then_def reset_def setupListenersOnConnect_def reject_def Let_def)
  with assms RunThenThrows show ?thesis
    by (auto simp: runThen_def reject_def split: list.splits promise.splits)
next
  case (OnOpen s)
  with assms show ?thesis
    by (auto simp: handleOpen_def setState_def resolve_def Let_def split: option.splits)
next
  case (OnMessage s d)
  have "receiveDataQueue (handleMessage d w) = [] \<or>
         (\<forall>p. ReceiveCallbacks p \<notin> set (receiveCallbacksQueue (handleMessage d w)))"
  proof (cases "receiveCallbacksQueue w")
    case Nil
    then show ?thesis by (simp add: handleMessage_def)
  next
    case (Cons c cs)
    with assms show ?thesis
      by (cases c) (auto simp: handleMessage_def resolve_def)
  qed
  with assms OnMessage show ?thesis by simp
next
  case (OnError s)
  with assms show ?thesis
    by (auto simp: handleError_def setState_def reject_def split: option.splits)
next
  case (OnClose s ev)
  with assms show ?thesis
    by (auto simp: handleClose_def setState_def Let_def)
qed

lemma reachable_run: "reachable w \<Longrightarrow> reachable (run es w)"
  unfolding run_def
  by (induction es arbitrary: w) (auto intro: reachable_step)

lemma settle_other:
  "q \<noteq> p \<Longrightarrow> promises (settle q st w) ! p = promises w ! p"
  by (simp add: settle_def)

lemma fold_reject_other:
  "ReceiveCallbacks p \<notin> set cs \<Longrightarrow> DisconnectCallbacks p \<notin> set cs \<Longrightarrow>
     promises (fold (\<lambda>c. callbacks_reject c v) cs w) ! p = promises w ! p"
proof (induction cs arbitrary: w)
  case Nil
  show ?case by simp
next
  case (Cons c cs)
  then show ?case
    by (cases c) (auto simp: resolve_def reject_def settle_other)
qed

lemma unreferenced_settle:
  "unreferenced p (settle q st w) = unreferenced p w"
  by (simp add: unreferenced_def)

lemma in_set_updateD:
  "x \<in> set (xs[s := y]) \<Longrightarrow> (s < length xs \<and> x = y) \<or> x \<in> set xs"
proof (cases "s < length xs")
  case True
  assume "x \<in> set (xs[s := y])"
  with True show ?thesis
    using set_update_subset_insert [of xs s y] by auto
next
  case False
  assume "x \<in> set (xs[s := y])"
  moreover from False have "xs[s := y] = xs"
    by (intro list_update_beyond) simp
  ultimately show ?thesis by simp
qed

lemma unreferenced_connect_then:
  assumes "unreferenced p w" "q \<noteq> p"
  shows "unreferenced p (connect_then a q u ps w)"
    and "promises (connect_then a q u ps w) ! p = promises w ! p"
  using assms
  by (auto simp: unreferenced_def connect_then_def reset_def setupListenersOnConnect_def Let_def
      reject_def settle_other nth_append dest!: in_set_updateD)

lemma unreferenced_setupPromise:
  assumes "unreferenced p w" and "s < length (sockets w)"
    and "setupPromise (sockets w ! s) = Some q"
  shows "q \<noteq> p"
proof -
  from assms(2) have "sockets w ! s \<in> set (sockets w)" by simp
  with assms(1,3) show ?thesis by (auto simp: unreferenced_def)
qed

lemma unreferenced_runThen:
  assumes "unreferenced p w"
  shows "unreferenced p (runThen accepted q w) \<and>
         promises (runThen accepted q w) ! p = promises w ! p"
proof (cases "filter (\<lambda>(p, q', u, ps). q' = q) (thens w)")
  case Nil
  with assms show ?thesis by (simp add: runThen_def)
next
  case (Cons j js)
  obtain a q' u ps where j: "j = (a, q', u, ps)" by (cases j)
  from Cons j have "(a, q', u, ps) \<in> set (filter (\<lambda>(p, q', u, ps). q' = q) (thens w))"
    by simp
  then have "(a, q, u, ps) \<in> set (thens w)" by auto
  with assms have qp: "q \<noteq> p" by (auto simp: unreferenced_def)
  let ?w = "w\<lparr>thens := filter (\<lambda>(p, q', u, ps). q' \<noteq> q) (thens w)\<rparr>"
  from assms have u: "unreferenced p ?w" by (auto simp: unreferenced_def)
  have pr: "promises ?w = promises w" by simp
  from unreferenced_connect_then [OF u qp] pr
  have 1: "unreferenced p (connect_then accepted q u ps ?w) \<and>
           promises (connect_then accepted q u ps ?w) ! p = promises w ! p"
    by simp
  from u qp pr have 2: "unreferenced p (reject q v ?w) \<and>
           promises (reject q v ?w) ! p = promises w ! p" for v
    by (simp add: reject_def unreferenced_settle settle_other)
  from 1 2 assms Cons j show ?thesis
    by (simp add: runThen_def split: promise.splits)
qed

lemma unreferenced_step:
  assumes "unreferenced p w"
  shows "unreferenced p (step e w) \<and> promises (step e w) ! p = promises w ! p"
proof (cases e)
  case (Connect u ps)
  with assms show ?thesis
    by (auto simp: unreferenced_def connect_def disconnect_def newPromise_def socket_close_def
        closeThrows_def setState_def Let_def nth_append split: option.splits
        dest!: in_set_updateD)
next
  case (Send d)
  with assms show ?thesis
    by (auto simp: unreferenced_def send_def socket_send_def split: option.splits)
next
  case Receive
  with assms show ?thesis
    by (auto simp: unreferenced_def receive_def newPromise_def nth_append split: list.splits)
next
  case (Disconnect c r)
  with assms show ?thesis
    by (auto simp: unreferenced_def disconnect_def newPromise_def socket_close_def
        reject_def settle_def setState_def Let_def nth_append split: option.splits
        dest!: in_set_updateD)
next
  case (RunThen q)
  with unreferenced_runThen [OF assms, of True q] show ?thesis by simp
next
  case (RunThenThrows q)
  with unreferenced_runThen [OF assms, of False q] show ?thesis by simp
next
  case (OnOpen s)
  with assms unreferenced_setupPromise [OF assms, of s] show ?thesis
    by (auto simp: unreferenced_def handleOpen_def setState_def resolve_def Let_def settle_other
        split: option.splits dest!: in_set_updateD)
next
  case (OnMessage s d)
  have "unreferenced p (handleMessage d w) \<and> promises (handleMessage d w) ! p = promises w ! p"
  proof (cases "receiveCallbacksQueue w")
    case Nil
    with assms show ?thesis by (simp add: handleMessage_def unreferenced_def)
  next
    case (Cons c cs)
    with assms show ?thesis
      by (cases c) (auto simp: handleMessage_def resolve_def unreferenced_def settle_other)
  qed
  with assms OnMessage show ?thesis by simp
next
  case (OnError s)
  with assms unreferenced_setupPromise [OF assms, of s] show ?thesis
    by (auto simp: unreferenced_def handleError_def setState_def reject_def settle_other
        split: option.splits dest!: in_set_updateD)
next
  case (OnClose s ev)
  with assms show ?thesis
    by (auto simp: unreferenced_def handleClose_eq setState_def Let_def fold_reject_other
        dest!: in_set_updateD)
qed

lemma unreferenced_run:
  "unreferenced p w \<Longrightarrow> promises (run es w) ! p = promises w ! p"
  unfolding run_def
proof (induction es arbitrary: w)
  case Nil
  show ?case by simp
next
  case (Cons e es)
  from unreferenced_step [OF Cons.prems, of e] Cons.IH [of "step e w"] show ?case
    by simp
qed

lemma abandoned_eq: "abandoned = 
\<lparr>socket = Some 1, closeEvent = Some (CloseEvent 1000 ''bye'' True),
    receiveCallbacksQueue = [], receiveDataQueue = [],
    sockets =
      [\<lparr>url = ''ws://x'', protocols = None, binaryType = ''arraybuffer'',
          readyState = CLOSED, setupPromise = Some 1, listening = True,
          closeFired = True\<rparr>,
       \<lparr>url = ''ws://y'', protocols = None, binaryType = ''arraybuffer'',
          readyState = CONNECTING, setupPromise = Some 4, listening = False,
          closeFired = False\<rparr>],
    promises =
      [Fulfilled Null, Fulfilled Undefined, Pending, Fulfilled Null,
       Pending],
    calls =
      [New ''ws://x'' None, SocketClose 0 None None, New ''ws://y'' None],
    thens = []\<rparr>"
  by (simp add: abandoned_def opened_eq eval_defs bye_def)

lemma interleaving_run:
  assumes "socket w = Some s" and "s < length (sockets w)"
    and "readyState (sockets w ! s) = OPEN" and "listening (sockets w ! s)"
  shows "snd (interleaving as w) =
           run (map (\<lambda>a. case a of Arrival d \<Rightarrow> OnMessage s d | ReceiveCall \<Rightarrow> Receive) as) w"
  using assms
proof (induction as w rule: interleaving.induct)
  case (1 w)
  show ?case by (simp add: run_def)
next
  case (2 d as w)
  have "socket (handleMessage d w) = socket w \<and> sockets (handleMessage d w) = sockets w"
  proof (cases "receiveCallbacksQueue w")
    case Nil
    then show ?thesis by (simp add: handleMessage_def)
  next
    case (Cons c cs)
    then show ?thesis by (cases c) (simp_all add: handleMessage_def resolve_def)
  qed
  with "2.prems" "2.IH" show ?case
    by (simp add: run_def)
next
  case (3 as w)
  obtain p w1 where r: "receive w = (p, w1)" by (cases "receive w")
  then have "socket w1 = socket w \<and> sockets w1 = sockets w"
    by (auto simp: receive_def newPromise_def split: list.splits if_splits)
  with "3.prems" "3.IH" [OF r [symmetric] refl] r show ?case
    by (simp add: run_def split_beta)
qed

lemma disconnect_connected:
  assumes "connected w" and "socket w = Some s" and "closeThrows c r = None"
  shows "disconnect c r w =
           (length (promises w),
            w\<lparr>promises := promises w @ [Pending],
              receiveCallbacksQueue :=
                receiveCallbacksQueue w @ [DisconnectCallbacks (length (promises w))],
              calls := calls w @ [SocketClose s c r],
              sockets := (sockets w)[s := (sockets w ! s)\<lparr>readyState := CLOSING\<rparr>]\<rparr>)"
  using assms
  by (simp add: disconnect_def newPromise_def socket_close_def setState_def connected_def Let_def)

lemma disconnect_resolved_at_close:
  assumes "connected w" and "socket w = Some s" and "listening (sockets w ! s)"
    and "\<not> closeFired (sockets w ! s)"
    and "ReceiveCallbacks (length (promises w)) \<notin> set (receiveCallbacksQueue w)"
    and "closeThrows c r = None"
  shows "promises (step (OnClose s ev) (snd (disconnect c r w))) ! fst (disconnect c r w)
           = Fulfilled (Close ev)"
proof -
  let ?p = "length (promises w)"
  define w1 where "w1 = snd (disconnect c r w)"
  from assms(1,2) have s: "s < length (sockets w)"
    by (simp add: connected_def)
  have w1: "w1 = w\<lparr>promises := promises w @ [Pending],
              receiveCallbacksQueue := receiveCallbacksQueue w @ [DisconnectCallbacks ?p],
              calls := calls w @ [SocketClose s c r],
              sockets := (sockets w)[s := (sockets w ! s)\<lparr>readyState := CLOSING\<rparr>]\<rparr>"
    and p: "fst (disconnect c r w) = ?p"
    by (simp_all add: w1_def disconnect_connected [OF assms(1,2,6)])
  have h: "s < length (sockets w1)" "listening (sockets w1 ! s)" "\<not> closeFired (sockets w1 ! s)"
    using s assms(3,4) by (simp_all add: w1)
  have "promises (fold (\<lambda>c. callbacks_reject c (Close ev)) (receiveCallbacksQueue w1) w1) ! ?p
          = Fulfilled (Close ev)"
  proof (rule fold_reject_waiter)
    show "DisconnectCallbacks ?p \<in> set (receiveCallbacksQueue w1)" by (simp add: w1)
    show "ReceiveCallbacks ?p \<notin> set (receiveCallbacksQueue w1)" using assms(5) by (simp add: w1)
    show "?p < length (promises w1)" by (simp add: w1)
    show "promises w1 ! ?p = Pending" by (simp add: w1)
  qed
  then have "promises (step (OnClose s ev) w1) ! ?p = Fulfilled (Close ev)"
    unfolding on_close_eq [OF h] by simp
  then show ?thesis
    by (simp only: p w1_def)
qed

lemma connect_then_resets:
  "receiveDataQueue (connect_then True q u ps w) = [] \<and>
   receiveCallbacksQueue (connect_then True q u ps w) = [] \<and>
   closeEvent (connect_then True q u ps w) = None \<and>
   socket (connect_then True q u ps w) = Some (length (sockets w)) \<and>
   sockets (connect_then True q u ps w) =
     sockets w @ [\<lparr>url = u, protocols = ps, binaryType = ''arraybuffer'',
                   readyState = CONNECTING, setupPromise = Some q, listening = False,
                   closeFired = False\<rparr>] \<and>
   calls (connect_then True q u ps w) = calls w @ [New u ps]"
  by (simp add: connect_then_def reset_def setupListenersOnConnect_def Let_def)

lemma connect_registers:
  "connect u ps w =
     (Suc (length (promises w)),
      (snd (disconnect None None w))
        \<lparr>promises := promises (snd (disconnect None None w)) @ [Pending],
         thens := thens w @ [(length (promises w), Suc (length (promises w)), u, ps)]\<rparr>)"
  by (simp add: connect_def disconnect_def newPromise_def socket_close_def closeThrows_def
      setState_def Let_def split: option.splits)

lemma runThen_waits:
  assumes "filter (\<lambda>(p, q', u, ps). q' = q) (thens w) = (p, q, u, ps) # js"
    and "p < length (promises w)"
  shows "promises w ! p = Pending \<Longrightarrow> runThen a q w = w"
    and "promises w ! p = Fulfilled v \<Longrightarrow>
           runThen a q w =
             connect_then a q u ps
               (w\<lparr>thens := filter (\<lambda>(p, q', u, ps). q' \<noteq> q) (thens w)\<rparr>)"
  using assms by (simp_all add: runThen_def)

lemma disconnect_throws:
  assumes "connected w" and "socket w = Some s" and "closeThrows c r = Some e"
  shows "disconnect c r w =
           (length (promises w),
            w\<lparr>promises := promises w @ [Rejected (DOMException e)],
              receiveCallbacksQueue :=
                receiveCallbacksQueue w @ [DisconnectCallbacks (length (promises w))],
              calls := calls w @ [SocketClose s c r]\<rparr>)"
  using assms
  by (simp add: disconnect_def newPromise_def socket_close_def reject_def settle_def Let_def)

text \<open>
  Once the current socket is closed and the terminal record set, the client stays not
  connected with that record under every event that is neither the callback of
  \<^verbatim>\<open>connect\<close> nor another \<^verbatim>\<open>close\<close> event.
\<close>

lemma closed_step:
  assumes "socket w = Some s" and "s < length (sockets w)"
    and "readyState (sockets w ! s) = CLOSED" and "closeEvent w = Some ev" and "quiet e"
  shows "socket (step e w) = Some s \<and> s < length (sockets (step e w)) \<and>
         readyState (sockets (step e w) ! s) = CLOSED \<and> closeEvent (step e w) = Some ev"
proof -
  from assms(1-3) have n: "\<not> connected w" by (simp add: connected_def)
  show ?thesis
  proof (cases e)
    case (Connect u ps)
    with assms n show ?thesis
      by (simp add: connect_def disconnect_def newPromise_def)
  next
    case (Send d)
    with assms n show ?thesis by (simp add: send_def)
  next
    case Receive
    with assms n show ?thesis
      by (simp add: receive_def newPromise_def split: list.splits)
  next
    case (Disconnect c r)
    with assms n show ?thesis by (simp add: disconnect_def newPromise_def)
  next
    case (RunThen q)
    with assms(5) show ?thesis by simp
  next
    case (RunThenThrows q)
    with assms(5) show ?thesis by simp
  next
    case (OnOpen s')
    with assms show ?thesis
      by (auto simp: handleOpen_def setState_def resolve_def nth_list_update Let_def
          split: option.splits)
  next
    case (OnMessage s' d)
    have "socket (handleMessage d w) = socket w \<and> sockets (handleMessage d w) = sockets w \<and>
          closeEvent (handleMessage d w) = closeEvent w"
    proof (cases "receiveCallbacksQueue w")
      case Nil
      then show ?thesis by (simp add: handleMessage_def)
    next
      case (Cons c cs)
      then show ?thesis by (cases c) (simp_all add: handleMessage_def resolve_def)
    qed
    with assms OnMessage show ?thesis by simp
  next
    case (OnError s')
    with assms show ?thesis
      by (auto simp: handleError_def setState_def reject_def nth_list_update
          split: option.splits)
  next
    case (OnClose s' ev')
    with assms(5) show ?thesis by simp
  qed
qed

lemma closed_run:
  assumes "socket w = Some s" and "s < length (sockets w)"
    and "readyState (sockets w ! s) = CLOSED" and "closeEvent w = Some ev"
    and "\<forall>e\<in>set es. quiet e"
  shows "\<not> connected (run es w) \<and> closeEvent (run es w) = Some ev"
  using assms unfolding run_def
proof (induction es arbitrary: w)
  case Nil
  then show ?case by (simp add: connected_def)
next
  case (Cons e es)
  from Cons.prems have "quiet e" by simp
  from closed_step [OF Cons.prems(1-4) this] Cons.prems(5) Cons.IH [of "step e w"]
  show ?case by simp
qed

lemma after_close_closed:
  assumes "socket w = Some s" and "s < length (sockets w)" and "listening (sockets w ! s)"
    and "\<not> closeFired (sockets w ! s)" and "\<forall>e\<in>set es. quiet e"
  shows "\<not> connected (run es (step (OnClose s ev) w)) \<and>
         closeEvent (run es (step (OnClose s ev) w)) = Some ev"
proof -
  define w' where "w' = step (OnClose s ev) w"
  have "w' =
      (fold (\<lambda>c. callbacks_reject c (Close ev)) (receiveCallbacksQueue w) w)
        \<lparr>closeEvent := Some ev, receiveCallbacksQueue := [],
         sockets := (sockets w)[s := (sockets w ! s)\<lparr>readyState := CLOSED, closeFired := True\<rparr>]\<rparr>"
    unfolding w'_def by (rule on_close_eq [OF assms(2-4)])
  with assms(1,2) have "socket w' = Some s" "s < length (sockets w')"
    "readyState (sockets w' ! s) = CLOSED" "closeEvent w' = Some ev"
    by simp_all
  from closed_run [OF this assms(5)] show ?thesis
    unfolding w'_def .
qed

section \<open>The properties of the specification\<close>

text \<open>
  C7. Whenever the buffered-message queue is not empty, \<^verbatim>\<open>receive\<close> returns a promise
  that is already fulfilled with the oldest buffered message and removes that message from
  the queue. Nothing is assumed about the connection: the statement holds in every state,
  also after the connection has closed.
\<close>

theorem receive_drains_buffer_first:
  "receiveDataQueue w = d # ds \<Longrightarrow>
     fst (receive w) = length (promises w) \<and>
     promises (snd (receive w)) ! fst (receive w) = Fulfilled (Data d) \<and>
     receiveDataQueue (snd (receive w)) = ds"
  by (simp add: receive_def newPromise_def)

theorem receive_drains_buffer_first_witness:
  "receiveDataQueue closed_with_buffer = ''a'' # [''b''] \<and> \<not> connected closed_with_buffer \<and>
   closeEvent closed_with_buffer = Some bye \<and>
   promises (snd (receive closed_with_buffer)) ! fst (receive closed_with_buffer) = Fulfilled (Data ''a'') \<and>
   receiveDataQueue (snd (receive closed_with_buffer)) = [''b'']"
proof -
  have q: "receiveDataQueue closed_with_buffer = ''a'' # [''b'']"
    by (simp add: closed_with_buffer_def opened_eq eval_defs)
  have c: "\<not> connected closed_with_buffer" "closeEvent closed_with_buffer = Some bye"
    by (simp_all add: closed_with_buffer_def opened_eq eval_defs)
  from receive_drains_buffer_first [OF q] q c show ?thesis by blast
qed

text \<open>
  C10. A call of \<^verbatim>\<open>receive\<close> on a non-empty buffered-message queue removes the head
  of that queue and nothing else: the pending-receiver queue, the terminal record, the
  socket handle, the sockets and the record of transport calls are as before; the promise
  store only gains the returned promise.
\<close>

theorem receive_buffered_frame:
  "receiveDataQueue w = d # ds \<Longrightarrow>
     receiveDataQueue (snd (receive w)) = ds \<and>
     receiveCallbacksQueue (snd (receive w)) = receiveCallbacksQueue w \<and>
     closeEvent (snd (receive w)) = closeEvent w \<and>
     socket (snd (receive w)) = socket w \<and>
     sockets (snd (receive w)) = sockets w \<and>
     calls (snd (receive w)) = calls w \<and>
     thens (snd (receive w)) = thens w \<and>
     promises (snd (receive w)) = promises w @ [Fulfilled (Data d)]"
  by (simp add: receive_def newPromise_def)

theorem receive_buffered_frame_witness:
  "receiveDataQueue open_with_buffer = ''a'' # [''b''] \<and>
   snd (receive open_with_buffer) =
     open_with_buffer\<lparr>receiveDataQueue := [''b''],
        promises := promises open_with_buffer @ [Fulfilled (Data ''a'')]\<rparr>"
proof -
  have q: "receiveDataQueue open_with_buffer = ''a'' # [''b'']"
    by (simp add: open_with_buffer_def opened_eq eval_defs)
  from receive_buffered_frame [OF q] q show ?thesis
    by (simp add: world.equality)
qed

text \<open>
  C8. When \<^verbatim>\<open>connected\<close> is false, \<^verbatim>\<open>disconnect\<close> returns a promise that is
  already fulfilled with the terminal record, or with \<^verbatim>\<open>null\<close> when there is none,
  and calls no transport primitive; the queues and the sockets are untouched.
\<close>

theorem disconnect_not_connected:
  "\<not> connected w \<Longrightarrow>
     fst (disconnect c r w) = length (promises w) \<and>
     promises (snd (disconnect c r w)) =
       promises w @ [Fulfilled (case closeEvent w of Some e \<Rightarrow> Close e | None \<Rightarrow> Null)] \<and>
     calls (snd (disconnect c r w)) = calls w \<and>
     sockets (snd (disconnect c r w)) = sockets w \<and>
     socket (snd (disconnect c r w)) = socket w \<and>
     closeEvent (snd (disconnect c r w)) = closeEvent w \<and>
     receiveCallbacksQueue (snd (disconnect c r w)) = receiveCallbacksQueue w \<and>
     receiveDataQueue (snd (disconnect c r w)) = receiveDataQueue w"
  by (simp add: disconnect_def newPromise_def closeEventVal_def)

theorem disconnect_not_connected_witness:
  "\<not> connected (constructor :: string world) \<and>
   promises (snd (disconnect None None (constructor :: string world))) = [Fulfilled Null] \<and>
   calls (snd (disconnect None None (constructor :: string world))) = [] \<and>
   \<not> connected closed_with_buffer \<and>
   promises (snd (disconnect None None closed_with_buffer)) ! fst (disconnect None None closed_with_buffer)
     = Fulfilled (Close bye) \<and>
   calls (snd (disconnect None None closed_with_buffer)) = calls closed_with_buffer"
proof -
  have n: "\<not> connected (constructor :: string world)"
    by (simp add: eval_defs)
  have c: "\<not> connected closed_with_buffer" "closeEvent closed_with_buffer = Some bye"
    by (simp_all add: closed_with_buffer_def opened_eq eval_defs)
  have k: "closeEvent (constructor :: string world) = None" "promises (constructor :: string world) = []"
    "calls (constructor :: string world) = []"
    by (simp_all add: eval_defs)
  from disconnect_not_connected [OF n, of None None] disconnect_not_connected [OF c(1), of None None]
    n c k show ?thesis by simp
qed

text \<open>
  C5. When \<^verbatim>\<open>connected\<close> is false, \<^verbatim>\<open>send\<close> throws the terminal record if there
  is one and the error "Not connected." otherwise, and the state, with its record of
  transport calls, is unchanged. When \<^verbatim>\<open>connected\<close> is true, \<^verbatim>\<open>send\<close> returns
  and the only change is one call of the socket's \<^verbatim>\<open>send\<close> with the very data.
\<close>

theorem send_precondition:
  "(\<not> connected w \<longrightarrow>
      send d w = (Thrown (case closeEvent w of Some e \<Rightarrow> Close e | None \<Rightarrow> Error ''Not connected.''), w)) \<and>
   (connected w \<longrightarrow>
      (\<exists>s. socket w = Some s \<and> send d w = (Returned, w\<lparr>calls := calls w @ [SocketSend s d]\<rparr>)))"
  by (auto simp: send_def notConnected_def connected_def socket_send_def split: option.splits)

theorem send_precondition_witness:
  "\<not> connected (constructor :: string world) \<and>
   send ''hi'' (constructor :: string world) = (Thrown (Error ''Not connected.''), constructor) \<and>
   \<not> connected closed_with_buffer \<and>
   send ''hi'' closed_with_buffer = (Thrown (Close bye), closed_with_buffer) \<and>
   connected opened \<and>
   send ''hi'' opened = (Returned, opened\<lparr>calls := [New ''ws://x'' None, SocketSend 0 ''hi'']\<rparr>)"
proof -
  have n: "\<not> connected (constructor :: string world)" "closeEvent (constructor :: string world) = None"
    by (simp_all add: eval_defs)
  have c: "\<not> connected closed_with_buffer" "closeEvent closed_with_buffer = Some bye"
    by (simp_all add: closed_with_buffer_def opened_eq eval_defs)
  have o: "connected opened" "socket opened = Some 0" "calls opened = [New ''ws://x'' None]"
    by (simp_all add: opened_eq eval_defs)
  from send_precondition [of constructor "''hi''"] send_precondition [of closed_with_buffer "''hi''"]
    send_precondition [of opened "''hi''"] n c o
  show ?thesis by auto
qed

text \<open>
  C9. A message event that finds the entry of \<^verbatim>\<open>disconnect\<close> at the head of the
  pending-receiver queue is lost: the entry moves to the tail of the queue, the payload is
  not appended to the buffered-message queue and no promise is settled with it.
\<close>

theorem message_lost_during_close:
  "receiveCallbacksQueue w = DisconnectCallbacks p # cs \<Longrightarrow>
     receiveCallbacksQueue (handleMessage d w) = cs @ [DisconnectCallbacks p] \<and>
     receiveDataQueue (handleMessage d w) = receiveDataQueue w \<and>
     promises (handleMessage d w) = promises w \<and>
     handleMessage d w = w\<lparr>receiveCallbacksQueue := cs @ [DisconnectCallbacks p]\<rparr>"
  by (simp add: handleMessage_def)

theorem message_lost_during_close_witness:
  "receiveCallbacksQueue closing = DisconnectCallbacks 3 # [] \<and>
   fst (disconnect None None (run [Receive, OnMessage 0 ''a''] opened)) = 3 \<and>
   step (OnMessage 0 ''late'') closing = handleMessage ''late'' closing \<and>
   receiveCallbacksQueue (handleMessage ''late'' closing) = [DisconnectCallbacks 3] \<and>
   receiveDataQueue (handleMessage ''late'' closing) = [] \<and>
   promises (handleMessage ''late'' closing) = promises closing \<and>
   promises closing = [Fulfilled Null, Fulfilled Undefined, Fulfilled (Data ''a''), Pending]"
proof -
  have q: "receiveCallbacksQueue closing = DisconnectCallbacks 3 # []"
    by (simp add: closing_def opened_eq eval_defs)
  have r: "receiveDataQueue closing = []"
    "promises closing = [Fulfilled Null, Fulfilled Undefined, Fulfilled (Data ''a''), Pending]"
    "fst (disconnect None None (run [Receive, OnMessage 0 ''a''] opened)) = 3"
    by (simp_all add: closing_def opened_eq eval_defs)
  have s: "step (OnMessage 0 ''late'') closing = handleMessage ''late'' closing"
    by (simp add: closing_def opened_eq eval_defs)
  from message_lost_during_close [OF q, of "''late''"] q r s show ?thesis by simp
qed




text \<open>
  C1. Start with both queues empty on an open connection, and let message events and
  calls of \<^verbatim>\<open>receive\<close> follow in any order. Then the promise of the \<open>k\<close>-th call is
  fulfilled with the \<open>k\<close>-th message to arrive, for every \<open>k\<close> below both the number of
  calls and the number of messages (counting from 0).
\<close>

theorem fifo_matching:
  assumes "connected w"
    and "receiveCallbacksQueue w = []" and "receiveDataQueue w = []"
    and "k < length (filter (\<lambda>a. a = ReceiveCall) as)"
    and "k < length (arrivals as)"
  shows "k < length (fst (interleaving as w)) \<and>
         fst (interleaving as w) ! k < length (promises (snd (interleaving as w))) \<and>
         promises (snd (interleaving as w)) ! (fst (interleaving as w) ! k)
           = Fulfilled (Data (arrivals as ! k))"
proof -
  from assms(4) have k: "k < length (fst (interleaving as w))"
    by (simp add: interleaving_length)
  from fifo_general [of w "[]" "[]" k as] assms k show ?thesis
    by simp
qed

theorem fifo_matching_witness:
  "connected opened \<and> receiveCallbacksQueue opened = [] \<and> receiveDataQueue opened = [] \<and>
   2 < length (filter (\<lambda>a. a = ReceiveCall) exchange) \<and> 2 < length (arrivals exchange) \<and>
   fst (interleaving exchange opened) = [2, 3, 4, 5] \<and>
   arrivals exchange = [''a'', ''b'', ''c''] \<and>
   promises (snd (interleaving exchange opened)) ! (fst (interleaving exchange opened) ! 2)
     = Fulfilled (Data ''c'') \<and>
   1 < length (filter (\<lambda>a. a = ReceiveCall) scenarioB) \<and> 1 < length (arrivals scenarioB) \<and>
   promises (snd (interleaving scenarioB opened)) ! (fst (interleaving scenarioB opened) ! 1)
     = Fulfilled (Data ''b'')"
proof -
  have o: "connected opened" "receiveCallbacksQueue opened = []" "receiveDataQueue opened = []"
    by (simp_all add: opened_eq connected_def)
  have e: "2 < length (filter (\<lambda>a. a = ReceiveCall) exchange)" "2 < length (arrivals exchange)"
    "arrivals exchange = [''a'', ''b'', ''c'']"
    by (simp_all add: exchange_def)
  have b: "1 < length (filter (\<lambda>a. a = ReceiveCall) scenarioB)" "1 < length (arrivals scenarioB)"
    by (simp_all add: scenarioB_def)
  have b': "arrivals scenarioB ! 1 = ''b''"
    by (simp add: scenarioB_def)
  have i: "fst (interleaving exchange opened) = [2, 3, 4, 5]"
    by (simp add: exchange_def opened_eq eval_defs)
  from fifo_matching [OF o e(1,2)] fifo_matching [OF o b] o e b b' i show ?thesis
    by simp
qed

text \<open>
  C2, amended. In every reachable state, the buffered-message queue and the entries of
  \<^verbatim>\<open>receive\<close> in the pending-receiver queue are never both present: while a message
  is buffered, the pending-receiver queue holds at most entries of \<^verbatim>\<open>disconnect\<close>.
\<close>

theorem queue_exclusivity:
  "reachable w \<Longrightarrow>
     receiveDataQueue w = [] \<or> (\<forall>p. ReceiveCallbacks p \<notin> set (receiveCallbacksQueue w))"
proof (induction rule: reachable.induct)
  case reachable_constructor
  show ?case by (simp add: constructor_def reset_def)
next
  case (reachable_step w e)
  then show ?case by (intro exclusive_step)
qed

theorem queue_exclusivity_witness:
  "reachable buffered_closing \<and> receiveDataQueue buffered_closing = [''a''] \<and>
   receiveCallbacksQueue buffered_closing = [DisconnectCallbacks 2] \<and>
   (receiveDataQueue buffered_closing = [] \<or>
    (\<forall>p. ReceiveCallbacks p \<notin> set (receiveCallbacksQueue buffered_closing)))"
proof -
  have r: "reachable buffered_closing"
    unfolding buffered_closing_def opened_def
    by (intro reachable_run reachable_constructor)
  have q: "receiveDataQueue buffered_closing = [''a'']"
    "receiveCallbacksQueue buffered_closing = [DisconnectCallbacks 2]"
    by (simp_all add: buffered_closing_def opened_eq eval_defs)
  from queue_exclusivity [OF r] r q show ?thesis by blast
qed

text \<open>
  C2 as stated fails: \<^verbatim>\<open>disconnect\<close> pushes its entry whatever the buffer holds, so
  after a buffered message and a call of \<^verbatim>\<open>disconnect\<close> both queues are non-empty.
\<close>

theorem queue_exclusivity_counterexample:
  "reachable buffered_closing \<and> receiveDataQueue buffered_closing \<noteq> [] \<and>
   receiveCallbacksQueue buffered_closing \<noteq> []"
proof -
  have "reachable buffered_closing"
    unfolding buffered_closing_def opened_def
    by (intro reachable_run reachable_constructor)
  moreover have "receiveDataQueue buffered_closing \<noteq> []"
    "receiveCallbacksQueue buffered_closing \<noteq> []"
    by (simp_all add: buffered_closing_def opened_eq eval_defs)
  ultimately show ?thesis by blast
qed

text \<open>
  C4 fails on the code. \<^verbatim>\<open>disconnect()\<close> is called on the open connection and returns
  promise 2, pending. \<^verbatim>\<open>connect\<close> is called before the close event: its own
  \<^verbatim>\<open>disconnect()\<close> finds the socket closing, resolves at once, and \<^verbatim>\<open>_reset\<close>
  drops the entry that held the promise's \<^verbatim>\<open>resolve\<close>. The close event of the first
  socket then finds an empty queue: promise 2 is pending, and stays pending whatever
  happens afterwards.
\<close>

theorem disconnect_never_resolves:
  "connected opened \<and> fst (disconnect None None opened) = 2 \<and>
   promises (snd (disconnect None None opened)) ! 2 = Pending \<and>
   readyState (sockets abandoned ! 0) = CLOSED \<and> closeEvent abandoned = Some bye \<and>
   (\<forall>es. promises (run es abandoned) ! 2 = Pending)"
proof -
  have "unreferenced 2 abandoned"
    by (simp add: abandoned_eq unreferenced_def)
  from unreferenced_run [OF this] have "\<forall>es. promises (run es abandoned) ! 2 = Pending"
    by (simp add: abandoned_eq)
  moreover have "connected opened" "fst (disconnect None None opened) = 2"
    "promises (snd (disconnect None None opened)) ! 2 = Pending"
    by (simp_all add: opened_eq eval_defs)
  moreover have "readyState (sockets abandoned ! 0) = CLOSED" "closeEvent abandoned = Some bye"
    by (simp_all add: abandoned_eq bye_def)
  ultimately show ?thesis by blast
qed

text \<open>
  C6 fails on the code. \<^verbatim>\<open>connect('ws://new')\<close> is called while the socket of
  \<^verbatim>\<open>connect('ws://old')\<close> is connecting: \<^verbatim>\<open>disconnect()\<close> resolves at once and
  closes nothing, the state is reset and the new socket installed. Both sockets open, the
  promise of the second \<^verbatim>\<open>connect\<close> is fulfilled, the queues are empty. A message of
  the old socket is then buffered, and \<^verbatim>\<open>receive\<close> hands it out.
\<close>

theorem reconnect_receives_old_data:
  "socket reconnected = Some 1 \<and> url (sockets reconnected ! 1) = ''ws://new'' \<and>
   connected reconnected \<and> promises reconnected ! 3 = Fulfilled Undefined \<and>
   receiveDataQueue reconnected = [] \<and> receiveCallbacksQueue reconnected = [] \<and>
   closeEvent reconnected = None \<and>
   calls reconnected = [New ''ws://old'' None, New ''ws://new'' None] \<and>
   url (sockets reconnected ! 0) = ''ws://old'' \<and>
   receiveDataQueue (step (OnMessage 0 ''stale'') reconnected) = [''stale''] \<and>
   promises (snd (receive (step (OnMessage 0 ''stale'') reconnected))) !
     fst (receive (step (OnMessage 0 ''stale'') reconnected)) = Fulfilled (Data ''stale'')"
  by (simp add: reconnected_def eval_defs)

end
